theory Spec2Isabelle
  imports Main "HOL-Library.Char_ord" "HOL-Library.List_Lexorder"
begin

section \<open>The INF rewriter (\<open>infilt\<close>) and the dependency pruner of nswine\<close>

text \<open>
  Byte buffers and Go strings are modelled as \<^typ>\<open>string\<close> (a list of 8-bit characters).
  The two bytes the code looks for are the line feed and the carriage return.
\<close>

abbreviation LF :: char where "LF \<equiv> CHR 0x0A"
abbreviation CR :: char where "CR \<equiv> CHR 0x0D"

subsection \<open>The library functions of Go the code calls\<close>

text \<open>\<open>bytes.IndexByte\<close>: the index of the first occurrence of a byte, if any.\<close>

fun IndexByte :: "string \<Rightarrow> char \<Rightarrow> nat option" where
  "IndexByte [] c = None"
| "IndexByte (x # xs) c = (if x = c then Some 0 else map_option Suc (IndexByte xs c))"

definition HasPrefix :: "string \<Rightarrow> string \<Rightarrow> bool" where
  "HasPrefix s p = (take (length p) s = p)"

definition HasSuffix :: "string \<Rightarrow> string \<Rightarrow> bool" where
  "HasSuffix s p = (length p \<le> length s \<and> drop (length s - length p) s = p)"

text \<open>\<open>bytes.CutPrefix\<close> and \<open>bytes.CutSuffix\<close>: the rest and \<open>ok\<close>, as an option.\<close>

definition CutPrefix :: "string \<Rightarrow> string \<Rightarrow> string option" where
  "CutPrefix s p = (if HasPrefix s p then Some (drop (length p) s) else None)"

definition CutSuffix :: "string \<Rightarrow> string \<Rightarrow> string option" where
  "CutSuffix s p = (if HasSuffix s p then Some (take (length s - length p) s) else None)"

text \<open>\<open>bytes.Contains\<close>: some suffix of the buffer starts with the pattern.\<close>

fun Contains :: "string \<Rightarrow> string \<Rightarrow> bool" where
  "Contains [] sub = (sub = [])"
| "Contains (x # xs) sub = (HasPrefix (x # xs) sub \<or> Contains xs sub)"

text \<open>
  \<open>bytes.Lines\<close>: while the buffer is not empty, cut it after its first line feed; what
  follows the last line feed is a final line with no terminator.
\<close>

function Lines :: "string \<Rightarrow> string list" where
  "Lines s =
     (if s = [] then []
      else (case IndexByte s LF of
              Some i \<Rightarrow> take (i + 1) s # Lines (drop (i + 1) s)
            | None \<Rightarrow> [s]))"
  by pat_completeness auto
termination
  by (relation "measure length") auto

declare Lines.simps [simp del]

subsection \<open>The scanner: the iterator \<open>in\<close> of \<open>infilt\<close>\<close>

text \<open>
  A scanned or emitted record is the pair (section, line). The iterator keeps the
  current section \<open>cur\<close>; a line \<open>[name]\<close> followed by a line feed sets it and is
  yielded as \<open>(name, [])\<close>, any other line is yielded with the current section.
\<close>

type_synonym inf_record = "string \<times> string"

fun scan_lines :: "string \<Rightarrow> string list \<Rightarrow> inf_record list" where
  "scan_lines cur [] = []"
| "scan_lines cur (line # rest) =
     (case CutPrefix line ''['' of
        Some section \<Rightarrow>
          (case CutSuffix section [CHR '']'', LF] of
             Some section' \<Rightarrow> (section', []) # scan_lines section' rest
           | None \<Rightarrow> (cur, line) # scan_lines cur rest)
      | None \<Rightarrow> (cur, line) # scan_lines cur rest)"

definition scan :: "string \<Rightarrow> inf_record list" where
  "scan buf = scan_lines [] (Lines buf)"

subsection \<open>The driver: \<open>emit\<close> and \<open>infilt\<close>\<close>

text \<open>
  The two panics of \<open>emit\<close> (\<open>emitted empty section/line\<close> and \<open>line must end with
  newline\<close>) and the two errors \<open>infilt\<close> returns (\<open>expected linux-style newlines\<close>, and
  the error of the transformation function wrapped as \<open>filter inf: ...\<close>); with an error
  the returned buffer is nil, so only \<open>Ok\<close> carries one. The output buffer \<open>res\<close> is
  kept as the sequence of its \<open>WriteString\<close> calls, each tagged with the statement
  that made it: \<open>Header s\<close> is the write of \<open>[s]\<close> and a line feed, \<open>Content l\<close> the
  write of the line \<open>l\<close>. \<open>Bytes\<close> is the buffer they make.
\<close>

datatype panic = EmittedEmptySectionLine | LineMustEndWithNewline

datatype error = ExpectedLinuxNewlines | FilterInf string

datatype 'a outcome = Ok 'a | Err error | Panic panic

datatype chunk = Header string | Content string

fun chunk_bytes :: "chunk \<Rightarrow> string" where
  "chunk_bytes (Header section) = ''['' @ section @ [CHR '']'', LF]"
| "chunk_bytes (Content line) = line"

definition Bytes :: "chunk list \<Rightarrow> string" where
  "Bytes ws = concat (map chunk_bytes ws)"

record emit_state =
  res :: "chunk list"
  cur :: string

definition emit_init :: emit_state where
  "emit_init = \<lparr>res = [], cur = []\<rparr>"

definition emit :: "emit_state \<Rightarrow> inf_record \<Rightarrow> panic + emit_state" where
  "emit st r =
     (case r of (section, line) \<Rightarrow>
        if section = [] \<and> line = [] then Inl EmittedEmptySectionLine
        else if line \<noteq> [] \<and> \<not> HasSuffix line [LF] then Inl LineMustEndWithNewline
        else
          let st1 = (if section \<noteq> [] \<and> (line = [] \<or> cur st \<noteq> section)
                     then st\<lparr>res := res st @ [Header section], cur := section\<rparr>
                     else st);
              st2 = (if line \<noteq> [] then st1\<lparr>res := res st1 @ [Content line]\<rparr> else st1)
          in Inr st2)"

text \<open>
  The transformation function \<open>fn\<close> is arbitrary Go code. All the driver sees of it is
  the sequence of its calls of \<open>emit\<close> and the error it returns, both depending on the
  records the iterator yields: it is modelled as a function from the scanned records to
  the emissions, in call order, and the optional error. A panic of \<open>emit\<close> unwinds
  through \<open>fn\<close>, so the emissions after it and the error are never reached.
\<close>

type_synonym transformFn = "inf_record list \<Rightarrow> inf_record list \<times> string option"

fun run_emits :: "emit_state \<Rightarrow> inf_record list \<Rightarrow> panic + emit_state" where
  "run_emits st [] = Inr st"
| "run_emits st (r # rs) =
     (case emit st r of Inl p \<Rightarrow> Inl p | Inr st' \<Rightarrow> run_emits st' rs)"

text \<open>\<open>infilt_res\<close> is \<open>infilt\<close> up to its last statement, \<open>infilt\<close> returns \<open>res.Bytes()\<close>.\<close>

definition infilt_res :: "transformFn \<Rightarrow> string \<Rightarrow> chunk list outcome" where
  "infilt_res fn buf =
     (if Contains buf [CR] then Err ExpectedLinuxNewlines
      else (case fn (scan buf) of (ems, err) \<Rightarrow>
              (case run_emits emit_init ems of
                 Inl p \<Rightarrow> Panic p
               | Inr st \<Rightarrow>
                   (case err of
                      Some e \<Rightarrow> Err (FilterInf e)
                    | None \<Rightarrow> Ok (res st)))))"

definition infilt :: "transformFn \<Rightarrow> string \<Rightarrow> string outcome" where
  "infilt fn buf = map_outcome Bytes (infilt_res fn buf)"

text \<open>The pass-through transformation of the test \<open>Passthrough\<close>: emit every record.\<close>

definition passthrough :: transformFn where
  "passthrough recs = (recs, None)"

subsection \<open>Notions the properties of the rewriter are stated with\<close>

text \<open>
  The two nested cuts of the iterator, as one function: the name of a header line.
\<close>

definition header_name :: "string \<Rightarrow> string option" where
  "header_name line =
     (case CutPrefix line ''['' of
        Some s \<Rightarrow> CutSuffix s [CHR '']'', LF]
      | None \<Rightarrow> None)"

text \<open>
  A well-formed sectioned buffer: Linux line ends only, every line terminated (the
  buffer is empty or ends with a line feed), and no header with an empty name.
\<close>

definition well_formed :: "string \<Rightarrow> bool" where
  "well_formed buf \<longleftrightarrow>
     \<not> Contains buf [CR] \<and> (buf = [] \<or> last buf = LF) \<and>
     [CHR ''['', CHR '']'', LF] \<notin> set (Lines buf)"

text \<open>
  Section transitions in an emission sequence, counted for the section \<open>s\<close>: an
  emission that names a section other than the one named last (\<open>c\<close>, empty before the
  first) moves into it; an emission with no section stays in the current one.
\<close>

fun transitions :: "string \<Rightarrow> string \<Rightarrow> inf_record list \<Rightarrow> nat" where
  "transitions s c [] = 0"
| "transitions s c ((section, line) # es) =
     (if section = [] then transitions s c es
      else (if section \<noteq> c \<and> section = s then 1 else 0) + transitions s section es)"

text \<open>Pure header emissions of \<open>s\<close> made while \<open>s\<close> is already the current section.\<close>

fun repeated_headers :: "string \<Rightarrow> string \<Rightarrow> inf_record list \<Rightarrow> nat" where
  "repeated_headers s c [] = 0"
| "repeated_headers s c ((section, line) # es) =
     (if section = [] then repeated_headers s c es
      else (if section = c \<and> section = s \<and> line = [] then 1 else 0)
           + repeated_headers s section es)"

text \<open>
  The specification's wording of the line-terminator rule, for comparison with the
  code: a buffer follows a single convention when it has no carriage return at all, or
  when its carriage returns and line feeds only occur as the pair CR LF.
\<close>

fun crlf_only :: "string \<Rightarrow> bool" where
  "crlf_only [] = True"
| "crlf_only [c] = (c \<noteq> CR \<and> c \<noteq> LF)"
| "crlf_only (c # d # cs) =
     (if c = CR then d = LF \<and> crlf_only cs else c \<noteq> LF \<and> crlf_only (d # cs))"

definition spec_single_convention :: "string \<Rightarrow> bool" where
  "spec_single_convention buf \<longleftrightarrow> CR \<notin> set buf \<or> crlf_only buf"

text \<open>Sample inputs: a small INF file, and a transformation that fails after one emission.\<close>

definition sample_inf :: string where
  "sample_inf =
     ''; test'' @ [LF] @ [LF] @ ''[Section]'' @ [LF] @ ''sdf,asd'' @ [LF] @
     ''[Section2]'' @ [LF] @ ''[Section2]'' @ [LF] @ ''dfk,wer'' @ [LF]"

definition failing_fn :: transformFn where
  "failing_fn recs = (take 1 recs, Some ''marker not found'')"

definition sample_res :: "chunk list" where
  "sample_res =
     [Content (''; test'' @ [LF]), Content [LF], Header ''Section'',
      Content (''sdf,asd'' @ [LF]), Header ''Section2'', Header ''Section2'',
      Content (''dfk,wer'' @ [LF])]"

definition sample_unterminated :: string where
  "sample_unterminated = ''x'' @ [LF] @ ''[A]'' @ [LF] @ ''y''"

text \<open>
  The input of \<open>TestInfilt\<close> and its transformation functions, in the model: each
  lists the emissions the Go function makes for the records it ranges over.
\<close>

definition test_input :: string where
  "test_input =
     ''; test'' @ [LF] @
     [LF] @
     ''[Section]'' @ [LF] @
     ''sdfsdf,asdasd,dfgdfg'' @ [LF] @
     [LF] @
     [LF] @
     ''[Section2]'' @ [LF] @
     ''[Section2]'' @ [LF] @
     ''dfkmgkldmfg,werwer'' @ [LF] @
     ''[Section2]'' @ [LF] @
     ''erktjnekjrntasd'' @ [LF]"

definition fn_PassthroughImplicit :: transformFn where
  "fn_PassthroughImplicit recs = (filter (\<lambda>(section, line). line \<noteq> []) recs, None)"

definition fn_RemoveSection :: transformFn where
  "fn_RemoveSection recs = (filter (\<lambda>(section, line). section \<noteq> ''Section'') recs, None)"

definition fn_RemoveLine :: transformFn where
  "fn_RemoveLine recs = (filter (\<lambda>(section, line). \<not> Contains line ''asd'') recs, None)"

definition fn_RemoveLineImplicit :: transformFn where
  "fn_RemoveLineImplicit recs =
     (filter (\<lambda>(section, line). line \<noteq> [] \<and> \<not> Contains line ''asd'') recs, None)"

definition fn_Complex :: transformFn where
  "fn_Complex recs =
     (concat (map (\<lambda>(section, line).
        (if section = ''Section'' \<and> line = []
         then [(section, ''sdfskjdfnksjndf'' @ [LF]), (section, ''ertert'' @ [LF])] else []) @
        (if line \<noteq> [] \<and> \<not> Contains line ''asd'' then [(section, line)] else [])) recs)
      @ [(''Section3'', ''dflgmldkfmg'' @ [LF])], None)"

section \<open>The dependency pruner\<close>

text \<open>
  The map \<open>dlldeps\<close> from a module's lower-cased name to its lower-cased imports is
  an association list read as a map: a lookup takes the first entry of a key, the key
  set is the set of first components, and a deletion removes every entry of the key.
\<close>

type_synonym depmap = "(string \<times> string list) list"

text \<open>\<open>slices.Sorted(maps.Keys(dlldeps))\<close>: the keys, each once, in byte-wise order.\<close>

definition sorted_keys :: "depmap \<Rightarrow> string list" where
  "sorted_keys m = sort (remdups (map fst m))"

text \<open>\<open>_, ok := dlldeps[dep]\<close>, \<open>dlldeps[name]\<close> (nil for a missing key) and \<open>delete\<close>.\<close>

definition has_key :: "depmap \<Rightarrow> string \<Rightarrow> bool" where
  "has_key m k = (map_of m k \<noteq> None)"

definition lookup :: "depmap \<Rightarrow> string \<Rightarrow> string list" where
  "lookup m k = (case map_of m k of Some deps \<Rightarrow> deps | None \<Rightarrow> [])"

definition delete_key :: "string \<Rightarrow> depmap \<Rightarrow> depmap" where
  "delete_key k m = filter (\<lambda>(k', deps). k' \<noteq> k) m"

text \<open>
  The first inner loop: \<open>remove[name]\<close> collects, in order and with repetitions, the
  imports of \<open>name\<close> that are not keys of \<open>dlldeps\<close>; a name with none has no entry.
\<close>

definition broken_deps :: "depmap \<Rightarrow> string \<Rightarrow> string list" where
  "broken_deps m name = filter (\<lambda>dep. \<not> has_key m dep) (lookup m name)"

definition compute_remove :: "depmap \<Rightarrow> (string \<times> string list) list" where
  "compute_remove m =
     filter (\<lambda>(name, deps). deps \<noteq> [])
       (map (\<lambda>name. (name, broken_deps m name)) (sorted_keys m))"

text \<open>
  \<open>for name, deps := range remove\<close> visits the entries of a Go map in an order the
  language leaves unspecified. The parameter \<open>rank\<close> stands for the order of this run:
  the entries are visited by ascending rank of their key.
\<close>

definition range_order ::
  "(string \<Rightarrow> nat) \<Rightarrow> (string \<times> string list) list \<Rightarrow> (string \<times> string list) list" where
  "range_order rank kvs = sort_key (\<lambda>(k, v). rank k) kvs"

text \<open>
  What the second loop does for each entry: the debug record of the removal, then
  \<open>os.Remove\<close> of the module's file, whose success is the parameter \<open>os_remove\<close> (the
  file name is found through \<open>uncase\<close>, which is left out), then the deletion of the
  key. A failed \<open>os.Remove\<close> returns the error at once; the error carries the records
  logged so far.
\<close>

record removal =
  iteration :: nat
  name :: string
  broken :: "string list"

datatype prune_error = RemoveFailed string "removal list"

fun remove_all ::
  "(string \<Rightarrow> bool) \<Rightarrow> nat \<Rightarrow> (string \<times> string list) list \<Rightarrow> depmap \<times> removal list
     \<Rightarrow> prune_error + depmap \<times> removal list" where
  "remove_all os_remove i [] (m, lg) = Inr (m, lg)"
| "remove_all os_remove i ((nm, deps) # rest) (m, lg) =
     (let lg' = lg @ [\<lparr>iteration = i, name = nm, broken = deps\<rparr>]
      in if os_remove nm then remove_all os_remove i rest (delete_key nm m, lg')
         else Inl (RemoveFailed nm lg'))"

record pruner_state =
  dlldeps :: depmap
  it :: nat
  removal_log :: "removal list"

text \<open>A round that removes something shortens the map: the measure of the loop.\<close>

lemma length_delete_key: "length (delete_key k m) \<le> length m"
  by (simp add: delete_key_def)

lemma length_delete_key_less: "k \<in> fst ` set m \<Longrightarrow> length (delete_key k m) < length m"
  unfolding delete_key_def
  by (rule length_filter_less [of "(k, SOME v. (k, v) \<in> set m)"]) (auto intro: someI)

lemma remove_all_length:
  "remove_all os_remove i rs (m, lg) = Inr (m', lg') \<Longrightarrow> length m' \<le> length m"
proof (induction rs arbitrary: m lg)
  case Nil
  then show ?case by simp
next
  case (Cons r rs)
  obtain nm deps where r: "r = (nm, deps)" by (cases r)
  from Cons.prems r have "os_remove nm" by (auto simp: Let_def split: if_splits)
  with Cons.prems r have
    "remove_all os_remove i rs (delete_key nm m, lg @ [\<lparr>iteration = i, name = nm, broken = deps\<rparr>])
       = Inr (m', lg')" by (simp add: Let_def)
  from Cons.IH [OF this] length_delete_key [of nm m] show ?case by simp
qed

lemma compute_remove_keys: "(nm, deps) \<in> set (compute_remove m) \<Longrightarrow> nm \<in> fst ` set m"
  by (auto simp: compute_remove_def sorted_keys_def)

lemma remove_all_shrinks:
  assumes "compute_remove m \<noteq> []"
    and "remove_all os_remove i (range_order rank (compute_remove m)) (m, lg) = Inr (m', lg')"
  shows "length m' < length m"
proof -
  let ?rs = "range_order rank (compute_remove m)"
  have set_rs: "set ?rs = set (compute_remove m)" by (simp add: range_order_def)
  with assms(1) have "?rs \<noteq> []" by (metis set_empty)
  then obtain nm deps rest where rs: "?rs = (nm, deps) # rest" by (cases ?rs) auto
  with set_rs have "(nm, deps) \<in> set (compute_remove m)" by (metis list.set_intros(1))
  then have k: "nm \<in> fst ` set m" by (rule compute_remove_keys)
  from assms(2) rs have "os_remove nm" by (auto simp: Let_def split: if_splits)
  with assms(2) rs have
    "remove_all os_remove i rest (delete_key nm m, lg @ [\<lparr>iteration = i, name = nm, broken = deps\<rparr>])
       = Inr (m', lg')" by (simp add: Let_def)
  from remove_all_length [OF this] length_delete_key_less [OF k] show ?thesis by simp
qed

text \<open>The loop \<open>for { ... }\<close> with its counter \<open>it\<close>.\<close>

function prune_loop ::
  "(string \<Rightarrow> nat) \<Rightarrow> (string \<Rightarrow> bool) \<Rightarrow> pruner_state \<Rightarrow> prune_error + pruner_state" where
  "prune_loop rank os_remove st =
     (let remove = compute_remove (dlldeps st) in
      if remove = [] then Inr st
      else (case remove_all os_remove (it st) (range_order rank remove)
                   (dlldeps st, removal_log st) of
              Inl e \<Rightarrow> Inl e
            | Inr (m', lg') \<Rightarrow>
                prune_loop rank os_remove \<lparr>dlldeps = m', it = it st + 1, removal_log = lg'\<rparr>))"
  by pat_completeness auto
termination
  by (relation "measure (\<lambda>(rank, os_remove, st). length (dlldeps st))")
    (auto dest: remove_all_shrinks)

declare prune_loop.simps [simp del]

text \<open>The pruner: the loop entered with the given map, \<open>it\<close> zero and nothing logged.\<close>

definition prune ::
  "(string \<Rightarrow> nat) \<Rightarrow> (string \<Rightarrow> bool) \<Rightarrow> depmap \<Rightarrow> prune_error + pruner_state" where
  "prune rank os_remove m =
     prune_loop rank os_remove \<lparr>dlldeps = m, it = 0, removal_log = []\<rparr>"

text \<open>
  The same loop with a bound on the number of passes through its body, to count them:
  \<open>None\<close> when the bound is reached before the loop ends.
\<close>

fun prune_passes ::
  "nat \<Rightarrow> (string \<Rightarrow> nat) \<Rightarrow> (string \<Rightarrow> bool) \<Rightarrow> pruner_state
     \<Rightarrow> (prune_error + pruner_state) option" where
  "prune_passes 0 rank os_remove st = None"
| "prune_passes (Suc n) rank os_remove st =
     (let remove = compute_remove (dlldeps st) in
      if remove = [] then Some (Inr st)
      else (case remove_all os_remove (it st) (range_order rank remove)
                   (dlldeps st, removal_log st) of
              Inl e \<Rightarrow> Some (Inl e)
            | Inr (m', lg') \<Rightarrow>
                prune_passes n rank os_remove
                  \<lparr>dlldeps = m', it = it st + 1, removal_log = lg'\<rparr>))"

subsection \<open>Notions the properties of the pruner are stated with\<close>

text \<open>
  The retained set is the key set of \<open>dlldeps\<close>. A set of modules is closed when every
  import of each of its members is a member. \<open>restrict_edges\<close> keeps of every import
  list the names that are keys.
\<close>

definition key_set :: "depmap \<Rightarrow> string set" where
  "key_set m = fst ` set m"

definition closed_under :: "depmap \<Rightarrow> string set \<Rightarrow> bool" where
  "closed_under m S \<longleftrightarrow> (\<forall>k \<in> S. set (lookup m k) \<subseteq> S)"

definition restrict_edges :: "depmap \<Rightarrow> depmap" where
  "restrict_edges m = map (\<lambda>(k, deps). (k, filter (has_key m) deps)) m"

text \<open>Sample maps: \<open>a.dll\<close> imports itself and imports \<open>b.dll\<close> twice.\<close>

definition sample_deps :: depmap where
  "sample_deps =
     [(''a.dll'', [''b.dll'', ''a.dll'', ''b.dll'']), (''b.dll'', []),
      (''c.dll'', [''x.dll'']), (''d.exe'', [''c.dll'', ''a.dll'']), (''e.dll'', [''x.dll''])]"

definition sample_deps_plain :: depmap where
  "sample_deps_plain =
     [(''a.dll'', [''b.dll'']), (''b.dll'', []),
      (''c.dll'', [''x.dll'']), (''d.exe'', [''c.dll'', ''a.dll'']), (''e.dll'', [''x.dll''])]"

definition sample_retained :: depmap where
  "sample_retained = [(''a.dll'', [''b.dll'', ''a.dll'', ''b.dll'']), (''b.dll'', [])]"

definition sample_log :: "removal list" where
  "sample_log =
     [\<lparr>iteration = 0, name = ''c.dll'', broken = [''x.dll'']\<rparr>,
      \<lparr>iteration = 0, name = ''e.dll'', broken = [''x.dll'']\<rparr>,
      \<lparr>iteration = 1, name = ''d.exe'', broken = [''c.dll'']\<rparr>]"

definition sample_log_swapped :: "removal list" where
  "sample_log_swapped =
     [\<lparr>iteration = 0, name = ''e.dll'', broken = [''x.dll'']\<rparr>,
      \<lparr>iteration = 0, name = ''c.dll'', broken = [''x.dll'']\<rparr>,
      \<lparr>iteration = 1, name = ''d.exe'', broken = [''c.dll'']\<rparr>]"

definition sample_retained_plain :: depmap where
  "sample_retained_plain = [(''a.dll'', [''b.dll'']), (''b.dll'', [])]"

definition sample_after_round :: depmap where
  "sample_after_round =
     [(''a.dll'', [''b.dll'', ''a.dll'', ''b.dll'']), (''b.dll'', []),
      (''d.exe'', [''c.dll'', ''a.dll''])]"

definition sample_log_round :: "removal list" where
  "sample_log_round =
     [\<lparr>iteration = 0, name = ''c.dll'', broken = [''x.dll'']\<rparr>,
      \<lparr>iteration = 0, name = ''e.dll'', broken = [''x.dll'']\<rparr>]"

definition rank_c_last :: "string \<Rightarrow> nat" where
  "rank_c_last k = (if k = ''c.dll'' then 1 else 0)"

section \<open>Properties of the rewriter\<close>

subsection \<open>The tests of the repository, run on the model\<close>

lemma test_Passthrough: "infilt passthrough test_input = Ok test_input"
  by code_simp

lemma test_PassthroughImplicit:
  "infilt fn_PassthroughImplicit test_input = Ok
    (''; test'' @ [LF] @
     [LF] @
     ''[Section]'' @ [LF] @
     ''sdfsdf,asdasd,dfgdfg'' @ [LF] @
     [LF] @
     [LF] @
     ''[Section2]'' @ [LF] @
     ''dfkmgkldmfg,werwer'' @ [LF] @
     ''erktjnekjrntasd'' @ [LF])"
  by code_simp

lemma test_RemoveSection:
  "infilt fn_RemoveSection test_input = Ok
    (''; test'' @ [LF] @
     [LF] @
     ''[Section2]'' @ [LF] @
     ''[Section2]'' @ [LF] @
     ''dfkmgkldmfg,werwer'' @ [LF] @
     ''[Section2]'' @ [LF] @
     ''erktjnekjrntasd'' @ [LF])"
  by code_simp

lemma test_RemoveLine:
  "infilt fn_RemoveLine test_input = Ok
    (''; test'' @ [LF] @
     [LF] @
     ''[Section]'' @ [LF] @
     [LF] @
     [LF] @
     ''[Section2]'' @ [LF] @
     ''[Section2]'' @ [LF] @
     ''dfkmgkldmfg,werwer'' @ [LF] @
     ''[Section2]'' @ [LF])"
  by code_simp

lemma test_RemoveLineImplicit:
  "infilt fn_RemoveLineImplicit test_input = Ok
    (''; test'' @ [LF] @
     [LF] @
     ''[Section]'' @ [LF] @
     [LF] @
     [LF] @
     ''[Section2]'' @ [LF] @
     ''dfkmgkldmfg,werwer'' @ [LF])"
  by code_simp

lemma test_Complex:
  "infilt fn_Complex test_input = Ok
    (''; test'' @ [LF] @
     [LF] @
     ''[Section]'' @ [LF] @
     ''sdfskjdfnksjndf'' @ [LF] @
     ''ertert'' @ [LF] @
     [LF] @
     [LF] @
     ''[Section2]'' @ [LF] @
     ''dfkmgkldmfg,werwer'' @ [LF] @
     ''[Section3]'' @ [LF] @
     ''dflgmldkfmg'' @ [LF])"
  by code_simp

subsection \<open>Lines, prefixes and suffixes\<close>

lemma IndexByte_None: "IndexByte s c = None \<longleftrightarrow> c \<notin> set s"
  by (induction s) auto

lemma IndexByte_Some:
  "IndexByte s c = Some i \<Longrightarrow> i < length s \<and> s ! i = c \<and> c \<notin> set (take i s)"
  by (induction s arbitrary: i) (auto split: if_splits)

lemma Contains_single: "Contains s [c] \<longleftrightarrow> c \<in> set s"
  by (induction s) (auto simp: HasPrefix_def)

lemma HasSuffix_LF: "HasSuffix l [LF] \<longleftrightarrow> l \<noteq> [] \<and> last l = LF"
proof (cases l rule: rev_cases)
  case Nil
  then show ?thesis by (simp add: HasSuffix_def)
next
  case (snoc ys y)
  then show ?thesis by (auto simp: HasSuffix_def)
qed

lemma concat_Lines: "concat (Lines s) = s"
proof (induction s rule: Lines.induct)
  case (1 s)
  show ?case
  proof (cases "s = []")
    case True
    then show ?thesis by (simp add: Lines.simps)
  next
    case False
    show ?thesis
    proof (cases "IndexByte s LF")
      case None
      with False show ?thesis by (simp add: Lines.simps)
    next
      case (Some i)
      with False "1.IH" have "concat (Lines (drop (i + 1) s)) = drop (i + 1) s" by simp
      with False Some show ?thesis
        by (subst Lines.simps) simp
    qed
  qed
qed

lemma Lines_nonempty: "l \<in> set (Lines s) \<Longrightarrow> l \<noteq> []"
proof (induction s rule: Lines.induct)
  case (1 s)
  show ?case
  proof (cases "s = []")
    case True
    with "1.prems" show ?thesis by (simp add: Lines.simps)
  next
    case False
    show ?thesis
    proof (cases "IndexByte s LF")
      case None
      with False "1.prems" show ?thesis by (simp add: Lines.simps)
    next
      case (Some i)
      with False "1.prems" have "l = take (i + 1) s \<or> l \<in> set (Lines (drop (i + 1) s))"
        by (subst (asm) Lines.simps) simp
      with False Some "1.IH" show ?thesis by auto
    qed
  qed
qed

lemma Lines_terminated:
  "s = [] \<or> last s = LF \<Longrightarrow> l \<in> set (Lines s) \<Longrightarrow> HasSuffix l [LF]"
proof (induction s rule: Lines.induct)
  case (1 s)
  show ?case
  proof (cases "s = []")
    case True
    with "1.prems" show ?thesis by (simp add: Lines.simps)
  next
    case False
    with "1.prems" have lst: "last s = LF" by simp
    show ?thesis
    proof (cases "IndexByte s LF")
      case None
      with False lst show ?thesis using IndexByte_None [of s LF] last_in_set [of s] by auto
    next
      case (Some i)
      from IndexByte_Some [OF Some] have i: "i < length s" "s ! i = LF" by auto
      from False Some "1.prems" have
        "l = take (i + 1) s \<or> l \<in> set (Lines (drop (i + 1) s))"
        by (subst (asm) Lines.simps) simp
      then show ?thesis
      proof
        assume l: "l = take (i + 1) s"
        with i have "l \<noteq> []" by auto
        moreover from l i have "last l = LF"
          by (simp add: take_Suc_conv_app_nth)
        ultimately show ?thesis by (simp add: HasSuffix_LF)
      next
        assume l: "l \<in> set (Lines (drop (i + 1) s))"
        have "drop (i + 1) s = [] \<or> last (drop (i + 1) s) = LF"
          using lst by (cases "drop (i + 1) s = []") auto
        with "1.IH" [OF False Some _ l] show ?thesis by simp
      qed
    qed
  qed
qed

lemma Lines_unterminated:
  "s \<noteq> [] \<Longrightarrow> last s \<noteq> LF \<Longrightarrow> Lines s \<noteq> [] \<and> \<not> HasSuffix (last (Lines s)) [LF]"
proof (induction s rule: Lines.induct)
  case (1 s)
  show ?case
  proof (cases "IndexByte s LF")
    case None
    with "1.prems" show ?thesis by (simp add: Lines.simps HasSuffix_LF)
  next
    case (Some i)
    from IndexByte_Some [OF Some] have i: "i < length s" "s ! i = LF" by auto
    have ne: "drop (i + 1) s \<noteq> []"
    proof
      assume "drop (i + 1) s = []"
      with i have "length s = i + 1" by simp
      with i "1.prems" show False by (simp add: last_conv_nth)
    qed
    with "1.prems" have "last (drop (i + 1) s) \<noteq> LF" by simp
    with "1.IH" [OF "1.prems"(1) Some ne] have
      "Lines (drop (i + 1) s) \<noteq> [] \<and> \<not> HasSuffix (last (Lines (drop (i + 1) s))) [LF]"
      by simp
    moreover from "1.prems" Some have "Lines s = take (i + 1) s # Lines (drop (i + 1) s)"
      by (subst Lines.simps) simp
    ultimately show ?thesis by simp
  qed
qed

lemma CutPrefix_Some: "CutPrefix line p = Some s \<longleftrightarrow> line = p @ s"
  by (auto simp: CutPrefix_def HasPrefix_def) (metis append_take_drop_id)

lemma CutSuffix_Some: "CutSuffix s p = Some s' \<longleftrightarrow> s = s' @ p"
proof
  assume "CutSuffix s p = Some s'"
  then have "length p \<le> length s" "drop (length s - length p) s = p"
    "s' = take (length s - length p) s"
    by (auto simp: CutSuffix_def HasSuffix_def split: if_splits)
  then show "s = s' @ p" by (metis append_take_drop_id)
next
  assume "s = s' @ p"
  then show "CutSuffix s p = Some s'" by (simp add: CutSuffix_def HasSuffix_def)
qed

lemma header_name_Some: "header_name line = Some n \<longleftrightarrow> line = ''['' @ n @ [CHR '']'', LF]"
proof
  assume "header_name line = Some n"
  then obtain s where "CutPrefix line ''['' = Some s" "CutSuffix s [CHR '']'', LF] = Some n"
    by (auto simp: header_name_def split: option.splits)
  then show "line = ''['' @ n @ [CHR '']'', LF]"
    by (simp add: CutPrefix_Some CutSuffix_Some)
next
  assume "line = ''['' @ n @ [CHR '']'', LF]"
  then have "CutPrefix line ''['' = Some (n @ [CHR '']'', LF])"
    by (simp add: CutPrefix_Some)
  moreover have "CutSuffix (n @ [CHR '']'', LF]) [CHR '']'', LF] = Some n"
    by (simp add: CutSuffix_Some)
  ultimately show "header_name line = Some n" by (simp add: header_name_def)
qed

lemma scan_lines_Cons:
  "scan_lines c (line # rest) =
    (case header_name line of Some n \<Rightarrow> (n, []) # scan_lines n rest
     | None \<Rightarrow> (c, line) # scan_lines c rest)"
  by (simp add: header_name_def split: option.splits)

lemma emit_header: "n \<noteq> [] \<Longrightarrow> emit st (n, []) = Inr (st\<lparr>res := res st @ [Header n], cur := n\<rparr>)"
  by (simp add: emit_def)

lemma emit_content_same:
  "HasSuffix line [LF] \<Longrightarrow> emit st (cur st, line) = Inr (st\<lparr>res := res st @ [Content line]\<rparr>)"
  by (auto simp: emit_def HasSuffix_LF)

lemma emit_unterminated:
  "line \<noteq> [] \<Longrightarrow> \<not> HasSuffix line [LF] \<Longrightarrow> emit st (section, line) = Inl LineMustEndWithNewline"
  by (simp add: emit_def)

lemma Bytes_append: "Bytes (xs @ ys) = Bytes xs @ Bytes ys"
  by (simp add: Bytes_def)

lemma run_emits_scan_lines:
  assumes "\<forall>l \<in> set ls. HasSuffix l [LF]" and "[CHR ''['', CHR '']'', LF] \<notin> set ls"
  shows "\<exists>st'. run_emits st (scan_lines (cur st) ls) = Inr st' \<and>
           Bytes (res st') = Bytes (res st) @ concat ls"
  using assms
proof (induction ls arbitrary: st)
  case Nil
  then show ?case by simp
next
  case (Cons line rest)
  show ?case
  proof (cases "header_name line")
    case None
    let ?st1 = "st\<lparr>res := res st @ [Content line]\<rparr>"
    from Cons.prems have "HasSuffix line [LF]" by simp
    then have e: "emit st (cur st, line) = Inr ?st1" by (rule emit_content_same)
    from Cons.IH [of ?st1] Cons.prems obtain st' where
      "run_emits ?st1 (scan_lines (cur ?st1) rest) = Inr st'"
      "Bytes (res st') = Bytes (res ?st1) @ concat rest" by auto
    with None e show ?thesis
      by (simp add: scan_lines_Cons Bytes_append Bytes_def del: scan_lines.simps)
  next
    case (Some n)
    then have line: "line = ''['' @ n @ [CHR '']'', LF]" by (simp add: header_name_Some)
    with Cons.prems have n: "n \<noteq> []" by auto
    let ?st1 = "st\<lparr>res := res st @ [Header n], cur := n\<rparr>"
    from n have e: "emit st (n, []) = Inr ?st1" by (rule emit_header)
    from Cons.IH [of ?st1] Cons.prems obtain st' where
      "run_emits ?st1 (scan_lines (cur ?st1) rest) = Inr st'"
      "Bytes (res st') = Bytes (res ?st1) @ concat rest" by auto
    with Some e line show ?thesis
      by (simp add: scan_lines_Cons Bytes_append Bytes_def del: scan_lines.simps)
  qed
qed

subsection \<open>Round trip\<close>

lemma passthrough_run:
  assumes wf: "well_formed buf"
  shows "\<exists>st. run_emits emit_init (scan buf) = Inr st \<and> Bytes (res st) = buf"
proof -
  from wf have "\<forall>l \<in> set (Lines buf). HasSuffix l [LF]"
    using Lines_terminated [of buf] by (auto simp: well_formed_def)
  moreover from wf have "[CHR ''['', CHR '']'', LF] \<notin> set (Lines buf)"
    by (simp add: well_formed_def)
  ultimately obtain st' where
    "run_emits emit_init (scan_lines (cur emit_init) (Lines buf)) = Inr st'"
    "Bytes (res st') = Bytes (res emit_init) @ concat (Lines buf)"
    using run_emits_scan_lines [of "Lines buf" emit_init] by blast
  then have "run_emits emit_init (scan buf) = Inr st'" "Bytes (res st') = buf"
    by (simp_all add: scan_def emit_init_def concat_Lines Bytes_def)
  then show ?thesis by blast
qed

text \<open>
  C1: rewriting a well-formed sectioned buffer with the pass-through transformation
  returns a buffer identical to the input, byte for byte.
\<close>

theorem roundtrip_identity: "well_formed buf \<Longrightarrow> infilt passthrough buf = Ok buf"
proof -
  assume wf: "well_formed buf"
  from passthrough_run [OF wf] obtain st where
    "run_emits emit_init (scan buf) = Inr st" "Bytes (res st) = buf" by blast
  with wf show ?thesis
    by (simp add: infilt_def infilt_res_def passthrough_def well_formed_def)
qed

theorem roundtrip_identity_witness:
  "well_formed sample_inf \<and> infilt passthrough sample_inf = Ok sample_inf"
proof -
  have wf: "well_formed sample_inf" by code_simp
  from wf roundtrip_identity [OF wf] show ?thesis by (rule conjI)
qed

subsection \<open>Headers written\<close>

lemma emit_Inr_cases:
  assumes "emit st (section, line) = Inr st'"
  shows "(section = [] \<longrightarrow> line \<noteq> [] \<and> st' = st\<lparr>res := res st @ [Content line]\<rparr>) \<and>
         (section \<noteq> [] \<longrightarrow> cur st' = section \<and>
            res st' = res st @ (if line = [] \<or> cur st \<noteq> section then [Header section] else [])
                             @ (if line \<noteq> [] then [Content line] else []))"
  using assms by (auto simp: emit_def Let_def split: if_splits)

lemma run_emits_headers:
  "run_emits st ems = Inr st' \<Longrightarrow>
   count_list (res st') (Header s) =
     count_list (res st) (Header s) + transitions s (cur st) ems + repeated_headers s (cur st) ems"
proof (induction ems arbitrary: st)
  case Nil
  then show ?case by simp
next
  case (Cons r rs)
  obtain sec ln where r: "r = (sec, ln)" by (cases r)
  from Cons.prems obtain st1 where e: "emit st r = Inr st1" and run: "run_emits st1 rs = Inr st'"
    by (auto split: sum.splits)
  note IH = Cons.IH [OF run]
  from emit_Inr_cases [OF e [unfolded r]] show ?case
    unfolding r using IH by (cases "sec = []") (auto split: if_splits)
qed

text \<open>
  C2, as the code has it: on success, the headers the driver writes for a section are
  its transitions in the emission order plus the pure header emissions made while it is
  already the current section. A content emission under the current section never
  writes a header.
\<close>

theorem header_count:
  assumes "infilt_res fn buf = Ok ws"
  shows "count_list ws (Header s) =
           transitions s [] (fst (fn (scan buf))) + repeated_headers s [] (fst (fn (scan buf)))"
proof -
  from assms obtain ems st where "fn (scan buf) = (ems, None)"
    "run_emits emit_init ems = Inr st" "ws = res st"
    by (auto simp: infilt_res_def split: if_splits prod.splits sum.splits option.splits)
  with run_emits_headers [of emit_init ems st s] show ?thesis
    by (simp add: emit_init_def)
qed

theorem header_count_witness:
  "infilt_res passthrough sample_inf = Ok sample_res \<and>
   count_list sample_res (Header ''Section2'') =
     transitions ''Section2'' [] (fst (passthrough (scan sample_inf))) +
     repeated_headers ''Section2'' [] (fst (passthrough (scan sample_inf)))"
proof -
  have r: "infilt_res passthrough sample_inf = Ok sample_res" by code_simp
  from r header_count [OF r, of "''Section2''"] show ?thesis by (rule conjI)
qed

text \<open>
  C2 as stated fails: passing the sample through writes the header of Section2 twice,
  for one transition into Section2.
\<close>

theorem header_minimality_counterexample:
  "infilt_res passthrough sample_inf = Ok sample_res \<and>
   \<not> count_list sample_res (Header ''Section2'')
       \<le> transitions ''Section2'' [] (fst (passthrough (scan sample_inf)))"
  by code_simp

subsection \<open>Scanned records\<close>

text \<open>
  C3 at the input made of the one line \<open>[]\<close>: the scanner yields a record whose section
  and line are both empty, and passing it through panics in \<open>emit\<close>.
\<close>

theorem scanner_yields_empty_record:
  "scan (''[]'' @ [LF]) = [([], [])] \<and>
   infilt passthrough (''[]'' @ [LF]) = Panic EmittedEmptySectionLine"
  by code_simp

subsection \<open>Errors\<close>

text \<open>
  C8 as stated fails: a buffer that uses CR LF throughout follows a single convention
  and is rejected.
\<close>

theorem consistent_crlf_rejected:
  "spec_single_convention (''a'' @ [CR, LF]) \<and>
   infilt passthrough (''a'' @ [CR, LF]) = Err ExpectedLinuxNewlines"
  by (simp add: spec_single_convention_def infilt_def infilt_res_def HasPrefix_def)

text \<open>
  C8, as the code has it: the rewrite returns the format error exactly when the buffer
  holds a carriage return somewhere.
\<close>

theorem format_error_iff_carriage_return:
  "infilt fn buf = Err ExpectedLinuxNewlines \<longleftrightarrow> CR \<in> set buf"
  by (auto simp: infilt_def infilt_res_def Contains_single
      split: prod.splits sum.splits option.splits)

theorem format_error_iff_carriage_return_witness:
  "infilt passthrough (''a'' @ [CR, LF]) = Err ExpectedLinuxNewlines \<and>
   infilt passthrough (''a'' @ [LF]) \<noteq> Err ExpectedLinuxNewlines"
  using format_error_iff_carriage_return [of passthrough "''a'' @ [CR, LF]"]
    format_error_iff_carriage_return [of passthrough "''a'' @ [LF]"]
  by simp

text \<open>
  C9: when the transformation function returns an error, \<open>infilt\<close> returns that error
  wrapped as \<open>filter inf\<close> and no buffer; a buffer is returned only when the check of
  the line ends passed, no emission panicked and the function returned no error, and
  then it is the whole serialisation of the emissions.
\<close>

theorem error_atomicity:
  "(\<not> Contains buf [CR] \<and> fn (scan buf) = (ems, Some e) \<and> run_emits emit_init ems = Inr st
      \<longrightarrow> infilt fn buf = Err (FilterInf e)) \<and>
   (infilt fn buf = Ok out \<longrightarrow>
      \<not> Contains buf [CR] \<and>
      (\<exists>ems' st'. fn (scan buf) = (ems', None) \<and> run_emits emit_init ems' = Inr st' \<and>
          out = Bytes (res st')))"
  by (auto simp: infilt_def infilt_res_def split: prod.splits sum.splits option.splits)

theorem error_atomicity_witness:
  "\<not> Contains sample_inf [CR] \<and>
   failing_fn (scan sample_inf) = ([([], ''; test'' @ [LF])], Some ''marker not found'') \<and>
   run_emits emit_init [([], ''; test'' @ [LF])]
     = Inr \<lparr>res = [Content (''; test'' @ [LF])], cur = []\<rparr> \<and>
   infilt failing_fn sample_inf = Err (FilterInf ''marker not found'')"
proof -
  have h: "\<not> Contains sample_inf [CR] \<and>
    failing_fn (scan sample_inf) = ([([], ''; test'' @ [LF])], Some ''marker not found'') \<and>
    run_emits emit_init [([], ''; test'' @ [LF])]
      = Inr \<lparr>res = [Content (''; test'' @ [LF])], cur = []\<rparr>"
    by code_simp
  with error_atomicity [of sample_inf failing_fn "[([], ''; test'' @ [LF])]"
      "''marker not found''" "\<lparr>res = [Content (''; test'' @ [LF])], cur = []\<rparr>"]
  show ?thesis by blast
qed

subsection \<open>A final line with no terminator\<close>

lemma scan_lines_last:
  "ls \<noteq> [] \<Longrightarrow> \<not> HasSuffix (last ls) [LF] \<Longrightarrow> snd (last (scan_lines c ls)) = last ls"
proof (induction ls arbitrary: c)
  case Nil
  then show ?case by simp
next
  case (Cons l rest)
  show ?case
  proof (cases "rest = []")
    case True
    with Cons.prems have "\<not> HasSuffix l [LF]" by simp
    then have "header_name l = None"
      by (cases "header_name l") (auto simp: header_name_Some HasSuffix_LF)
    with True show ?thesis by (simp add: scan_lines_Cons del: scan_lines.simps(2))
  next
    case False
    then have "scan_lines c' rest \<noteq> []" for c'
      by (cases rest) (auto split: option.splits)
    with False Cons show ?thesis
      by (auto simp: scan_lines_Cons simp del: scan_lines.simps(2) split: option.splits)
  qed
qed

lemma scan_lines_Nil: "scan_lines c ls = [] \<longleftrightarrow> ls = []"
  by (cases ls) (auto split: option.splits)

lemma run_emits_last_panics:
  "\<forall>st. emit st r = Inl p \<Longrightarrow> \<exists>p'. run_emits st (rs @ [r]) = Inl p'"
  by (induction rs arbitrary: st) (auto split: sum.splits)

lemma run_emits_panic_kind:
  "([], []) \<notin> set rs \<Longrightarrow> run_emits st rs = Inl p \<Longrightarrow> p = LineMustEndWithNewline"
proof (induction rs arbitrary: st)
  case Nil
  then show ?case by simp
next
  case (Cons r rs)
  obtain sec ln where r: "r = (sec, ln)" by (cases r)
  show ?case
  proof (cases "emit st r")
    case (Inl q)
    with Cons.prems r have "q = LineMustEndWithNewline"
      by (auto simp: emit_def Let_def split: if_splits)
    with Inl Cons.prems show ?thesis by simp
  next
    case (Inr st1)
    with Cons show ?thesis by simp
  qed
qed

lemma scan_unterminated:
  assumes "buf \<noteq> []" and "last buf \<noteq> LF"
  shows "scan buf \<noteq> []" and "snd (last (scan buf)) \<noteq> []"
    and "\<not> HasSuffix (snd (last (scan buf))) [LF]"
proof -
  from assms Lines_unterminated [of buf] have
    ne: "Lines buf \<noteq> []" and un: "\<not> HasSuffix (last (Lines buf)) [LF]" by auto
  from ne show "scan buf \<noteq> []" by (simp add: scan_def scan_lines_Nil)
  from ne un have lst: "snd (last (scan buf)) = last (Lines buf)"
    by (simp add: scan_def scan_lines_last)
  from ne have "last (Lines buf) \<noteq> []"
    using Lines_nonempty [of "last (Lines buf)" buf] by simp
  with lst show "snd (last (scan buf)) \<noteq> []" by simp
  from lst un show "\<not> HasSuffix (snd (last (scan buf))) [LF]" by simp
qed

lemma emit_scan_unterminated:
  assumes "buf \<noteq> []" and "last buf \<noteq> LF"
  shows "emit st (last (scan buf)) = Inl LineMustEndWithNewline"
proof -
  obtain sec ln where r: "last (scan buf) = (sec, ln)" by (cases "last (scan buf)")
  with scan_unterminated(2,3) [OF assms] have "ln \<noteq> []" "\<not> HasSuffix ln [LF]" by simp_all
  then show ?thesis unfolding r by (rule emit_unterminated)
qed

lemma run_scan_unterminated:
  assumes "buf \<noteq> []" and "last buf \<noteq> LF"
  shows "\<exists>p. run_emits emit_init (scan buf) = Inl p"
proof -
  from scan_unterminated(1) [OF assms]
  have split: "scan buf = butlast (scan buf) @ [last (scan buf)]" by simp
  from emit_scan_unterminated [OF assms]
  have "\<forall>st. emit st (last (scan buf)) = Inl LineMustEndWithNewline" by blast
  then have "\<exists>p'. run_emits emit_init (butlast (scan buf) @ [last (scan buf)]) = Inl p'"
    by (rule run_emits_last_panics)
  with split show ?thesis by simp
qed

text \<open>
  C10: when a non-empty buffer with no carriage return does not end with a line feed,
  the last scanned record carries a line with no terminator, emitting that record
  panics with \<open>line must end with newline\<close> in any state, and the pass-through run
  panics instead of returning a buffer.
\<close>

theorem unterminated_final_line:
  assumes "buf \<noteq> []" and "CR \<notin> set buf" and "last buf \<noteq> LF"
  shows "scan buf \<noteq> [] \<and> snd (last (scan buf)) \<noteq> [] \<and>
         \<not> HasSuffix (snd (last (scan buf))) [LF] \<and>
         (\<forall>st. emit st (last (scan buf)) = Inl LineMustEndWithNewline) \<and>
         (\<exists>p. infilt passthrough buf = Panic p) \<and>
         (([], []) \<notin> set (scan buf) \<longrightarrow> infilt passthrough buf = Panic LineMustEndWithNewline)"
proof -
  note un = assms(1,3)
  from run_scan_unterminated [OF un] obtain p where
    p: "run_emits emit_init (scan buf) = Inl p" ..
  with assms(2) have res: "infilt passthrough buf = Panic p"
    by (simp add: infilt_def infilt_res_def passthrough_def Contains_single)
  from p have "([], []) \<notin> set (scan buf) \<Longrightarrow> p = LineMustEndWithNewline"
    by (rule run_emits_panic_kind [rotated])
  with scan_unterminated [OF un] emit_scan_unterminated [OF un] res show ?thesis by auto
qed

theorem unterminated_final_line_witness:
  "sample_unterminated \<noteq> [] \<and> CR \<notin> set sample_unterminated \<and>
   last sample_unterminated \<noteq> LF \<and> ([], []) \<notin> set (scan sample_unterminated) \<and>
   infilt passthrough sample_unterminated = Panic LineMustEndWithNewline"
proof -
  have h1: "sample_unterminated \<noteq> []" and h2: "CR \<notin> set sample_unterminated"
    and h3: "last sample_unterminated \<noteq> LF"
    by (simp_all add: sample_unterminated_def)
  have h4: "([], []) \<notin> set (scan sample_unterminated)" by code_simp
  from unterminated_final_line [OF h1 h2 h3] h1 h2 h3 h4 show ?thesis by blast
qed

subsection \<open>Where the pass-through run returns\<close>

text \<open>
  The scanner yields a record with both fields empty exactly when a line of the buffer
  is the header with the empty name.
\<close>

lemma scan_lines_empty_record:
  "\<forall>l \<in> set ls. l \<noteq> [] \<Longrightarrow>
   ([], []) \<in> set (scan_lines c ls) \<longleftrightarrow> [CHR ''['', CHR '']'', LF] \<in> set ls"
proof (induction ls arbitrary: c)
  case Nil
  then show ?case by simp
next
  case (Cons l rest)
  from Cons.prems have l: "l \<noteq> []" and rest: "\<forall>l \<in> set rest. l \<noteq> []" by simp_all
  show ?case
  proof (cases "header_name l")
    case None
    then have "l \<noteq> [CHR ''['', CHR '']'', LF]"
      using header_name_Some [of l "[]"] by auto
    with None l Cons.IH [OF rest] show ?thesis
      by (simp add: scan_lines_Cons del: scan_lines.simps(2))
  next
    case (Some n)
    then have "l = ''['' @ n @ [CHR '']'', LF]" by (simp add: header_name_Some)
    then have "n = [] \<longleftrightarrow> l = [CHR ''['', CHR '']'', LF]" by auto
    with Some Cons.IH [OF rest] show ?thesis
      by (auto simp: scan_lines_Cons simp del: scan_lines.simps(2))
  qed
qed

lemma scan_empty_record:
  "([], []) \<in> set (scan buf) \<longleftrightarrow> [CHR ''['', CHR '']'', LF] \<in> set (Lines buf)"
  unfolding scan_def using Lines_nonempty [of _ buf]
  by (intro scan_lines_empty_record) blast

lemma run_emits_Inr_records:
  "run_emits st rs = Inr st' \<Longrightarrow> ([], []) \<notin> set rs"
proof (induction rs arbitrary: st)
  case Nil
  then show ?case by simp
next
  case (Cons r rs)
  from Cons.prems obtain st1 where e: "emit st r = Inr st1" and run: "run_emits st1 rs = Inr st'"
    by (auto split: sum.splits)
  from e have "r \<noteq> ([], [])" by (auto simp: emit_def)
  with Cons.IH [OF run] show ?case by auto
qed

text \<open>
  The well-formed buffers are all the buffers the pass-through run returns on.
\<close>

lemma passthrough_only_well_formed:
  assumes ok: "infilt passthrough buf = Ok out"
  shows "well_formed buf"
proof -
  from ok have cr: "\<not> Contains buf [CR]"
    by (auto simp: infilt_def infilt_res_def split: if_splits)
  with ok obtain st where run: "run_emits emit_init (scan buf) = Inr st"
    by (auto simp: infilt_def infilt_res_def passthrough_def split: sum.splits)
  have ends: "buf = [] \<or> last buf = LF"
  proof (rule ccontr)
    assume "\<not> (buf = [] \<or> last buf = LF)"
    with run_scan_unterminated [of buf] run show False by auto
  qed
  from run_emits_Inr_records [OF run] have "[CHR ''['', CHR '']'', LF] \<notin> set (Lines buf)"
    by (simp add: scan_empty_record)
  with cr ends show ?thesis by (simp add: well_formed_def)
qed

section \<open>Properties of the pruner\<close>

subsection \<open>Maps, rounds and the induction over the loop\<close>

lemma has_key_iff: "has_key m k \<longleftrightarrow> k \<in> key_set m"
  by (simp add: has_key_def key_set_def map_of_eq_None_iff)

lemma set_sorted_keys: "set (sorted_keys m) = key_set m"
  by (simp add: sorted_keys_def key_set_def)

lemma length_sorted_keys: "length (sorted_keys m) = card (key_set m)"
  by (simp add: sorted_keys_def key_set_def length_remdups_card_conv)

lemma finite_key_set: "finite (key_set m)"
  by (simp add: key_set_def)

lemma map_of_delete_key: "map_of (delete_key k m) = (map_of m)(k := None)"
  by (induction m) (auto simp: delete_key_def)

lemma key_set_delete_key: "key_set (delete_key k m) = key_set m - {k}"
  by (auto simp: key_set_def delete_key_def)

lemma remove_all_Inr:
  "remove_all os_remove i rs (m, lg) = Inr (m', lg') \<Longrightarrow>
   key_set m' = key_set m - fst ` set rs \<and>
   (\<forall>k. k \<notin> fst ` set rs \<longrightarrow> map_of m' k = map_of m k) \<and>
   lg' = lg @ map (\<lambda>(nm, deps). \<lparr>iteration = i, name = nm, broken = deps\<rparr>) rs"
proof (induction rs arbitrary: m lg)
  case Nil
  then show ?case by simp
next
  case (Cons r rs)
  obtain nm deps where r: "r = (nm, deps)" by (cases r)
  let ?lg = "lg @ [\<lparr>iteration = i, name = nm, broken = deps\<rparr>]"
  from Cons.prems r have run: "remove_all os_remove i rs (delete_key nm m, ?lg) = Inr (m', lg')"
    by (auto simp: Let_def split: if_splits)
  from Cons.IH [OF run] r show ?case
    by (auto simp: key_set_delete_key map_of_delete_key)
qed

lemma remove_all_succeeds:
  "\<forall>r \<in> set rs. os_remove (fst r) \<Longrightarrow> \<exists>m' lg'. remove_all os_remove i rs (m, lg) = Inr (m', lg')"
proof (induction rs arbitrary: m lg)
  case Nil
  then show ?case by simp
next
  case (Cons r rs)
  obtain nm deps where r: "r = (nm, deps)" by (cases r)
  with Cons show ?case by (simp add: Let_def)
qed

lemma compute_remove_entry:
  "(nm, deps) \<in> set (compute_remove m) \<longleftrightarrow>
     nm \<in> key_set m \<and> deps = broken_deps m nm \<and> deps \<noteq> []"
  by (auto simp: compute_remove_def set_sorted_keys)

lemma set_broken_deps: "set (broken_deps m nm) = set (lookup m nm) - key_set m"
  by (auto simp: broken_deps_def has_key_iff)

lemma broken_deps_Nil: "broken_deps m k = [] \<longleftrightarrow> set (lookup m k) \<subseteq> key_set m"
  using set_broken_deps [of m k] by (metis Diff_eq_empty_iff set_empty)

lemma compute_remove_names:
  "fst ` set (compute_remove m) = {k \<in> key_set m. \<not> set (lookup m k) \<subseteq> key_set m}"
proof (rule set_eqI)
  fix k
  have "k \<in> fst ` set (compute_remove m) \<longleftrightarrow> (\<exists>deps. (k, deps) \<in> set (compute_remove m))"
    by force
  also have "\<dots> \<longleftrightarrow> k \<in> key_set m \<and> broken_deps m k \<noteq> []"
    by (simp add: compute_remove_entry)
  finally show "k \<in> fst ` set (compute_remove m) \<longleftrightarrow>
      k \<in> {k \<in> key_set m. \<not> set (lookup m k) \<subseteq> key_set m}"
    by (simp add: broken_deps_Nil)
qed

lemma compute_remove_Nil: "compute_remove m = [] \<longleftrightarrow> closed_under m (key_set m)"
proof -
  have "compute_remove m = [] \<longleftrightarrow> fst ` set (compute_remove m) = {}" by simp
  also have "\<dots> \<longleftrightarrow> closed_under m (key_set m)"
    unfolding compute_remove_names closed_under_def by blast
  finally show ?thesis .
qed

lemma prune_loop_Inr_induct [consumes 1, case_names stop round]:
  assumes "prune_loop rank os_remove st = Inr st'"
    and "\<And>st. compute_remove (dlldeps st) = [] \<Longrightarrow> P st st"
    and "\<And>st m' lg' st'.
          compute_remove (dlldeps st) \<noteq> [] \<Longrightarrow>
          remove_all os_remove (it st) (range_order rank (compute_remove (dlldeps st)))
            (dlldeps st, removal_log st) = Inr (m', lg') \<Longrightarrow>
          prune_loop rank os_remove \<lparr>dlldeps = m', it = it st + 1, removal_log = lg'\<rparr> = Inr st' \<Longrightarrow>
          P \<lparr>dlldeps = m', it = it st + 1, removal_log = lg'\<rparr> st' \<Longrightarrow> P st st'"
  shows "P st st'"
proof -
  have "rank' = rank \<Longrightarrow> os' = os_remove \<Longrightarrow> prune_loop rank' os' st = Inr st' \<Longrightarrow> P st st'"
    for rank' os'
  proof (induction rank' os' st rule: prune_loop.induct)
    case (1 rank' os' st)
    note eqs = "1.prems"(1,2)
    from "1.prems" have res: "prune_loop rank os_remove st = Inr st'" by simp
    show ?case
    proof (cases "compute_remove (dlldeps st) = []")
      case True
      with res have "st' = st" by (simp add: prune_loop.simps)
      with True assms(2) show ?thesis by simp
    next
      case False
      let ?r = "remove_all os_remove (it st) (range_order rank (compute_remove (dlldeps st)))
              (dlldeps st, removal_log st)"
      from False res obtain m' lg' where ra: "?r = Inr (m', lg')"
        and run: "prune_loop rank os_remove \<lparr>dlldeps = m', it = it st + 1, removal_log = lg'\<rparr> = Inr st'"
        by (subst (asm) prune_loop.simps) (auto simp: Let_def split: sum.splits)
      from ra eqs have ra': "remove_all os' (it st) (range_order rank' (compute_remove (dlldeps st)))
              (dlldeps st, removal_log st) = Inr (m', lg')" by simp
      from run eqs have run': "prune_loop rank' os' \<lparr>dlldeps = m', it = it st + 1, removal_log = lg'\<rparr> = Inr st'"
        by simp
      from "1.IH" [OF refl False ra' refl eqs run']
      have "P \<lparr>dlldeps = m', it = it st + 1, removal_log = lg'\<rparr> st'" .
      then show ?thesis by (rule assms(3) [OF False ra run])
    qed
  qed
  with assms(1) show ?thesis by simp
qed

subsection \<open>What the loop preserves\<close>

text \<open>What one round does to the map.\<close>

lemma round_facts:
  assumes ra: "remove_all os_remove i (range_order rank (compute_remove m)) (m, lg) = Inr (m', lg')"
  shows "key_set m' = {k \<in> key_set m. set (lookup m k) \<subseteq> key_set m}"
    and "\<And>k. k \<in> key_set m' \<Longrightarrow> map_of m' k = map_of m k"
    and "set lg' = set lg \<union>
           (\<lambda>(nm, deps). \<lparr>iteration = i, name = nm, broken = deps\<rparr>) ` set (compute_remove m)"
proof -
  let ?rs = "range_order rank (compute_remove m)"
  have set_rs: "set ?rs = set (compute_remove m)" by (simp add: range_order_def)
  from remove_all_Inr [OF ra] have
    ks: "key_set m' = key_set m - fst ` set ?rs"
    and mo: "\<forall>k. k \<notin> fst ` set ?rs \<longrightarrow> map_of m' k = map_of m k"
    and lg: "lg' = lg @ map (\<lambda>(nm, deps). \<lparr>iteration = i, name = nm, broken = deps\<rparr>) ?rs"
    by simp_all
  from ks show "key_set m' = {k \<in> key_set m. set (lookup m k) \<subseteq> key_set m}"
    unfolding set_rs compute_remove_names by blast
  from ks mo show "map_of m' k = map_of m k" if "k \<in> key_set m'" for k
    using that by simp
  from lg show "set lg' = set lg \<union>
      (\<lambda>(nm, deps). \<lparr>iteration = i, name = nm, broken = deps\<rparr>) ` set (compute_remove m)"
    by (simp add: set_rs)
qed

lemma round_shrinks:
  assumes "compute_remove m \<noteq> []"
    and "remove_all os_remove i (range_order rank (compute_remove m)) (m, lg) = Inr (m', lg')"
  shows "card (key_set m') < card (key_set m)"
proof -
  from assms(1) obtain k where "k \<in> fst ` set (compute_remove m)"
    by (cases "compute_remove m") auto
  then have "k \<in> key_set m" "\<not> set (lookup m k) \<subseteq> key_set m"
    by (simp_all add: compute_remove_names)
  with round_facts(1) [OF assms(2)] have "key_set m' \<subset> key_set m" by blast
  then show ?thesis by (rule psubset_card_mono [OF finite_key_set])
qed

lemma closed_under_cong:
  "(\<And>k. k \<in> S \<Longrightarrow> map_of m' k = map_of m k) \<Longrightarrow> closed_under m' S \<longleftrightarrow> closed_under m S"
  by (simp add: closed_under_def lookup_def)

lemma prune_loop_sub:
  assumes "prune_loop rank os_remove st = Inr st'"
  shows "key_set (dlldeps st') \<subseteq> key_set (dlldeps st) \<and>
         (\<forall>k \<in> key_set (dlldeps st'). map_of (dlldeps st') k = map_of (dlldeps st) k)"
  using assms
proof (induction rule: prune_loop_Inr_induct)
  case (stop st)
  show ?case by simp
next
  case (round st m' lg' st')
  from round_facts(1,2) [OF round(2)] round(4) show ?case by auto
qed

lemma prune_loop_fixed:
  assumes "prune_loop rank os_remove st = Inr st'"
  shows "compute_remove (dlldeps st') = []"
  using assms by (induction rule: prune_loop_Inr_induct) simp_all

lemma prune_loop_greatest:
  assumes "prune_loop rank os_remove st = Inr st'"
  shows "\<forall>S. S \<subseteq> key_set (dlldeps st) \<and> closed_under (dlldeps st) S
           \<longrightarrow> S \<subseteq> key_set (dlldeps st')"
  using assms
proof (induction rule: prune_loop_Inr_induct)
  case (stop st)
  show ?case by simp
next
  case (round st m' lg' st')
  show ?case
  proof (intro allI impI)
    fix S
    assume S: "S \<subseteq> key_set (dlldeps st) \<and> closed_under (dlldeps st) S"
    then have "\<And>k. k \<in> S \<Longrightarrow> set (lookup (dlldeps st) k) \<subseteq> key_set (dlldeps st)"
      unfolding closed_under_def by blast
    with S round_facts(1) [OF round(2)] have sub: "S \<subseteq> key_set m'" by auto
    with round_facts(2) [OF round(2)] have "closed_under m' S \<longleftrightarrow> closed_under (dlldeps st) S"
      by (intro closed_under_cong) auto
    with S sub round(4) show "S \<subseteq> key_set (dlldeps st')" by simp
  qed
qed

lemma prune_loop_rounds:
  assumes "prune_loop rank os_remove st = Inr st'"
  shows "it st' + card (key_set (dlldeps st')) \<le> it st + card (key_set (dlldeps st))"
  using assms
proof (induction rule: prune_loop_Inr_induct)
  case (stop st)
  show ?case by simp
next
  case (round st m' lg' st')
  from round_shrinks [OF round(1,2)] round(4) show ?case by simp
qed

lemma prune_loop_log:
  assumes "prune_loop rank os_remove st = Inr st'"
  shows "\<forall>r \<in> set (removal_log st'). r \<in> set (removal_log st) \<or>
           (broken r \<noteq> [] \<and> name r \<notin> set (broken r))"
  using assms
proof (induction rule: prune_loop_Inr_induct)
  case (stop st)
  show ?case by simp
next
  case (round st m' lg' st')
  have "broken r \<noteq> [] \<and> name r \<notin> set (broken r)"
    if "r \<in> (\<lambda>(nm, deps). \<lparr>iteration = it st, name = nm, broken = deps\<rparr>) `
              set (compute_remove (dlldeps st))" for r
  proof -
    from that obtain nm deps where "(nm, deps) \<in> set (compute_remove (dlldeps st))"
      and r: "r = \<lparr>iteration = it st, name = nm, broken = deps\<rparr>" by auto
    then have "nm \<in> key_set (dlldeps st)" "deps = broken_deps (dlldeps st) nm" "deps \<noteq> []"
      by (auto simp: compute_remove_entry)
    with r show ?thesis by (simp add: set_broken_deps)
  qed
  note new = this
  from round(4) have "\<forall>r \<in> set (removal_log st'). r \<in> set lg' \<or>
      (broken r \<noteq> [] \<and> name r \<notin> set (broken r))" by simp
  with new round_facts(3) [OF round(2)] show ?case by blast
qed

lemma prune_loop_succeeds:
  assumes "\<forall>k \<in> key_set (dlldeps st). os_remove k"
  shows "\<exists>st'. prune_loop rank os_remove st = Inr st'"
  using assms
proof (induction rank os_remove st rule: prune_loop.induct)
  case (1 rank os_remove st)
  show ?case
  proof (cases "compute_remove (dlldeps st) = []")
    case True
    then show ?thesis by (simp add: prune_loop.simps)
  next
    case False
    let ?rs = "range_order rank (compute_remove (dlldeps st))"
    have "\<forall>r \<in> set ?rs. os_remove (fst r)"
      using "1.prems" compute_remove_names [of "dlldeps st"] by (auto simp: range_order_def)
    from remove_all_succeeds [OF this] obtain m' lg' where
      ra: "remove_all os_remove (it st) ?rs (dlldeps st, removal_log st) = Inr (m', lg')" by blast
    from round_facts(1) [OF ra] "1.prems" have "\<forall>k \<in> key_set m'. os_remove k" by simp
    with "1.IH" [OF refl False ra refl] obtain st' where
      "prune_loop rank os_remove \<lparr>dlldeps = m', it = it st + 1, removal_log = lg'\<rparr> = Inr st'"
      by auto
    with False ra show ?thesis by (subst prune_loop.simps) (simp add: Let_def)
  qed
qed

subsection \<open>The retained set\<close>

lemma map_of_map_values:
  "map_of (map (\<lambda>(k, deps). (k, f deps)) m) k = map_option f (map_of m k)"
  by (induction m) auto

lemma map_of_restrict_edges:
  "map_of (restrict_edges m) k = map_option (filter (has_key m)) (map_of m k)"
  unfolding restrict_edges_def by (rule map_of_map_values)

lemma key_set_restrict_edges: "key_set (restrict_edges m) = key_set m"
  by (force simp: key_set_def restrict_edges_def)

lemma compute_remove_restrict_edges: "compute_remove (restrict_edges m) = []"
proof -
  have "set (lookup (restrict_edges m) k) \<subseteq> key_set m" for k
    by (auto simp: lookup_def map_of_restrict_edges has_key_iff split: option.splits)
  then show ?thesis
    by (simp add: compute_remove_Nil closed_under_def key_set_restrict_edges)
qed

lemma prune_fixed: "compute_remove m = [] \<Longrightarrow>
    prune rank os_remove m = Inr \<lparr>dlldeps = m, it = 0, removal_log = []\<rparr>"
  by (simp add: prune_def prune_loop.simps)

lemma prune_closed:
  assumes "prune rank os_remove m = Inr st"
  shows "key_set (dlldeps st) \<subseteq> key_set m" and "closed_under m (key_set (dlldeps st))"
    and "\<And>S. S \<subseteq> key_set m \<Longrightarrow> closed_under m S \<Longrightarrow> S \<subseteq> key_set (dlldeps st)"
proof -
  from assms have run: "prune_loop rank os_remove \<lparr>dlldeps = m, it = 0, removal_log = []\<rparr> = Inr st"
    by (simp add: prune_def)
  from prune_loop_sub [OF run] show sub: "key_set (dlldeps st) \<subseteq> key_set m" by simp
  from prune_loop_sub [OF run] have
    eq: "\<And>k. k \<in> key_set (dlldeps st) \<Longrightarrow> map_of (dlldeps st) k = map_of m k" by simp
  from prune_loop_fixed [OF run] have "closed_under (dlldeps st) (key_set (dlldeps st))"
    by (simp add: compute_remove_Nil)
  with closed_under_cong [of "key_set (dlldeps st)" "dlldeps st" m] eq
  show "closed_under m (key_set (dlldeps st))" by simp
  from prune_loop_greatest [OF run]
  show "S \<subseteq> key_set (dlldeps st)" if "S \<subseteq> key_set m" "closed_under m S" for S
    using that by simp
qed

lemma closed_under_same_edges:
  assumes "\<forall>k. set (lookup m2 k) - {k} = set (lookup m k) - {k}"
  shows "closed_under m2 S \<longleftrightarrow> closed_under m S"
  unfolding closed_under_def using assms by blast

lemma prune_same_edges:
  assumes "key_set m2 = key_set m"
    and "\<forall>k. set (lookup m2 k) - {k} = set (lookup m k) - {k}"
    and "prune rank os_remove m = Inr st" and "prune rank2 os_remove2 m2 = Inr st2"
  shows "key_set (dlldeps st2) = key_set (dlldeps st)"
proof
  note same = closed_under_same_edges [OF assms(2)]
  from prune_closed(1,2) [OF assms(4)] assms(1)
  have "key_set (dlldeps st2) \<subseteq> key_set m" "closed_under m (key_set (dlldeps st2))"
    by (simp_all add: same)
  then show "key_set (dlldeps st2) \<subseteq> key_set (dlldeps st)"
    by (rule prune_closed(3) [OF assms(3)])
  from prune_closed(1,2) [OF assms(3)] assms(1)
  have "key_set (dlldeps st) \<subseteq> key_set m2" "closed_under m2 (key_set (dlldeps st))"
    by (simp_all add: same)
  then show "key_set (dlldeps st) \<subseteq> key_set (dlldeps st2)"
    by (rule prune_closed(3) [OF assms(4)])
qed

subsection \<open>Two runs of the pruner\<close>

lemma prune_chain_present:
  "prune rank (\<lambda>k. True) [(''p'', [''q'']), (''q'', [''r'']), (''r'', [])]
     = Inr \<lparr>dlldeps = [(''p'', [''q'']), (''q'', [''r'']), (''r'', [])], it = 0,
            removal_log = []\<rparr>"
  by (rule prune_fixed) code_simp

lemma prune_chain_broken:
  "prune rank (\<lambda>k. True) [(''p'', [''q'']), (''q'', [''x''])]
     = Inr \<lparr>dlldeps = [], it = 2,
            removal_log = [\<lparr>iteration = 0, name = ''q'', broken = [''x'']\<rparr>,
                           \<lparr>iteration = 1, name = ''p'', broken = [''q'']\<rparr>]\<rparr>"
  by (simp add: prune_def prune_loop.simps compute_remove_def sorted_keys_def broken_deps_def
      lookup_def has_key_def range_order_def delete_key_def)

text \<open>
  C4: when the pruner returns, the retained set is a closed subset of the keys of the
  given map and contains every closed subset of them; pruning the returned map again,
  or the returned map with its edges restricted to its own keys, returns it unchanged
  with no removal. The pruner returns whenever no file removal fails.
\<close>

theorem pruner_closure:
  "(prune rank os_remove m = Inr st \<longrightarrow>
      key_set (dlldeps st) \<subseteq> key_set m \<and>
      closed_under m (key_set (dlldeps st)) \<and>
      (\<forall>S. S \<subseteq> key_set m \<and> closed_under m S \<longrightarrow> S \<subseteq> key_set (dlldeps st)) \<and>
      prune rank' os_remove' (dlldeps st)
        = Inr \<lparr>dlldeps = dlldeps st, it = 0, removal_log = []\<rparr> \<and>
      key_set (restrict_edges (dlldeps st)) = key_set (dlldeps st) \<and>
      prune rank' os_remove' (restrict_edges (dlldeps st))
        = Inr \<lparr>dlldeps = restrict_edges (dlldeps st), it = 0, removal_log = []\<rparr>) \<and>
   ((\<forall>k \<in> key_set m. os_remove k) \<longrightarrow> (\<exists>st'. prune rank os_remove m = Inr st'))"
proof (intro conjI impI)
  assume run: "prune rank os_remove m = Inr st"
  from prune_closed(1) [OF run] show "key_set (dlldeps st) \<subseteq> key_set m" .
  from prune_closed(2) [OF run] show "closed_under m (key_set (dlldeps st))" .
  from prune_closed(3) [OF run]
  show "\<forall>S. S \<subseteq> key_set m \<and> closed_under m S \<longrightarrow> S \<subseteq> key_set (dlldeps st)" by blast
  from run have "compute_remove (dlldeps st) = []"
    unfolding prune_def by (rule prune_loop_fixed)
  then show "prune rank' os_remove' (dlldeps st)
      = Inr \<lparr>dlldeps = dlldeps st, it = 0, removal_log = []\<rparr>" by (rule prune_fixed)
  show "key_set (restrict_edges (dlldeps st)) = key_set (dlldeps st)"
    by (rule key_set_restrict_edges)
  show "prune rank' os_remove' (restrict_edges (dlldeps st))
      = Inr \<lparr>dlldeps = restrict_edges (dlldeps st), it = 0, removal_log = []\<rparr>"
    by (rule prune_fixed [OF compute_remove_restrict_edges])
next
  assume "\<forall>k \<in> key_set m. os_remove k"
  then show "\<exists>st'. prune rank os_remove m = Inr st'"
    unfolding prune_def by (intro prune_loop_succeeds) simp
qed

lemma sample_run: "prune (\<lambda>k. 0) (\<lambda>k. True) sample_deps
    = Inr \<lparr>dlldeps = sample_retained, it = 2, removal_log = sample_log\<rparr>"
  by code_simp

theorem pruner_closure_witness:
  "prune (\<lambda>k. 0) (\<lambda>k. True) sample_deps
     = Inr \<lparr>dlldeps = sample_retained, it = 2, removal_log = sample_log\<rparr> \<and>
   key_set sample_retained \<subseteq> key_set sample_deps \<and>
   closed_under sample_deps (key_set sample_retained) \<and>
   prune (\<lambda>k. 0) (\<lambda>k. True) sample_retained
     = Inr \<lparr>dlldeps = sample_retained, it = 0, removal_log = []\<rparr>"
  using pruner_closure [of "\<lambda>k. 0" "\<lambda>k. True" sample_deps
      "\<lparr>dlldeps = sample_retained, it = 2, removal_log = sample_log\<rparr>" "\<lambda>k. 0" "\<lambda>k. True"]
    sample_run
  by simp

text \<open>
  C5 at the sample map: \<open>c.dll\<close> and \<open>e.dll\<close> are removed in the same round, and
  the order of their two removal records (and of the two file removals) follows the
  iteration order of the Go map \<open>remove\<close>: two runs on the same map differ.
\<close>

theorem removal_order_follows_map_iteration:
  "prune (\<lambda>k. 0) (\<lambda>k. True) sample_deps
     = Inr \<lparr>dlldeps = sample_retained, it = 2, removal_log = sample_log\<rparr> \<and>
   prune rank_c_last (\<lambda>k. True) sample_deps
     = Inr \<lparr>dlldeps = sample_retained, it = 2, removal_log = sample_log_swapped\<rparr> \<and>
   sample_log \<noteq> sample_log_swapped"
  by code_simp

text \<open>
  C6: no removal record lists the removed module itself among its broken
  dependencies; and two maps with the same keys whose import lists agree as sets, up
  to the module's own name, have the same retained set (so the same modules removed).
\<close>

theorem self_and_duplicate_edges_inert:
  "(prune rank os_remove m = Inr st \<longrightarrow>
      (\<forall>r \<in> set (removal_log st). name r \<notin> set (broken r))) \<and>
   (key_set m2 = key_set m \<and> (\<forall>k. set (lookup m2 k) - {k} = set (lookup m k) - {k}) \<and>
    prune rank os_remove m = Inr st \<and> prune rank2 os_remove2 m2 = Inr st2
      \<longrightarrow> key_set (dlldeps st2) = key_set (dlldeps st))"
proof (intro conjI impI)
  assume "prune rank os_remove m = Inr st"
  then have "prune_loop rank os_remove \<lparr>dlldeps = m, it = 0, removal_log = []\<rparr> = Inr st"
    by (simp add: prune_def)
  from prune_loop_log [OF this] show "\<forall>r \<in> set (removal_log st). name r \<notin> set (broken r)"
    by simp
next
  assume "key_set m2 = key_set m \<and> (\<forall>k. set (lookup m2 k) - {k} = set (lookup m k) - {k}) \<and>
    prune rank os_remove m = Inr st \<and> prune rank2 os_remove2 m2 = Inr st2"
  then show "key_set (dlldeps st2) = key_set (dlldeps st)"
    using prune_same_edges [of m2 m rank os_remove st rank2 os_remove2 st2] by blast
qed

theorem self_and_duplicate_edges_inert_witness:
  "key_set sample_deps_plain = key_set sample_deps \<and>
   (\<forall>k. set (lookup sample_deps_plain k) - {k} = set (lookup sample_deps k) - {k}) \<and>
   prune (\<lambda>k. 0) (\<lambda>k. True) sample_deps
     = Inr \<lparr>dlldeps = sample_retained, it = 2, removal_log = sample_log\<rparr> \<and>
   prune (\<lambda>k. 0) (\<lambda>k. True) sample_deps_plain
     = Inr \<lparr>dlldeps = sample_retained_plain, it = 2, removal_log = sample_log\<rparr> \<and>
   key_set sample_retained_plain = key_set sample_retained"
proof -
  have k: "key_set sample_deps_plain = key_set sample_deps"
    by (simp add: key_set_def sample_deps_def sample_deps_plain_def)
  have e: "\<forall>k. set (lookup sample_deps_plain k) - {k} = set (lookup sample_deps k) - {k}"
    by (auto simp: lookup_def sample_deps_def sample_deps_plain_def)
  have r: "prune (\<lambda>k. 0) (\<lambda>k. True) sample_deps_plain
     = Inr \<lparr>dlldeps = sample_retained_plain, it = 2, removal_log = sample_log\<rparr>"
    by code_simp
  from self_and_duplicate_edges_inert [where m = sample_deps and ?m2.0 = sample_deps_plain
      and rank = "\<lambda>k. 0" and os_remove = "\<lambda>k. True" and ?rank2.0 = "\<lambda>k. 0"
      and ?os_remove2.0 = "\<lambda>k. True"
      and st = "\<lparr>dlldeps = sample_retained, it = 2, removal_log = sample_log\<rparr>"
      and ?st2.0 = "\<lparr>dlldeps = sample_retained_plain, it = 2, removal_log = sample_log\<rparr>"]
    k e sample_run r
  show ?thesis by simp
qed

lemma prune_passes_enough:
  "card (key_set (dlldeps st)) < n \<Longrightarrow>
   prune_passes n rank os_remove st = Some (prune_loop rank os_remove st)"
proof (induction n arbitrary: st)
  case 0
  then show ?case by simp
next
  case (Suc n)
  let ?r = "remove_all os_remove (it st) (range_order rank (compute_remove (dlldeps st)))
      (dlldeps st, removal_log st)"
  show ?case
  proof (cases "compute_remove (dlldeps st) = []")
    case True
    then show ?thesis by (simp add: prune_loop.simps)
  next
    case False
    show ?thesis
    proof (cases ?r)
      case (Inl e)
      with False show ?thesis by (simp add: prune_loop.simps [of rank os_remove st])
    next
      case (Inr x)
      obtain m' lg' where x: "x = (m', lg')" by (cases x)
      from round_shrinks [OF False Inr [unfolded x]] Suc.prems
      have "card (key_set m') < n" by simp
      then have "prune_passes n rank os_remove \<lparr>dlldeps = m', it = it st + 1, removal_log = lg'\<rparr>
          = Some (prune_loop rank os_remove \<lparr>dlldeps = m', it = it st + 1, removal_log = lg'\<rparr>)"
        by (intro Suc.IH) simp
      with False Inr x show ?thesis by (simp add: prune_loop.simps [of rank os_remove st])
    qed
  qed
qed

text \<open>
  C7: the loop ends (the termination of \<open>prune_loop\<close> is proved with its definition,
  by the length of the map). A round that removes something leaves strictly fewer
  modules; the number of removal rounds \<open>it\<close> the loop ends with is at most the number
  of modules of the given map; and that many passes through the body plus the last
  one, which finds nothing to remove, are enough for the loop to return.
\<close>

theorem pruner_rounds_bounded:
  "(compute_remove m \<noteq> [] \<and>
    remove_all os_remove i (range_order rank (compute_remove m)) (m, lg) = Inr (m', lg')
      \<longrightarrow> length (sorted_keys m') < length (sorted_keys m)) \<and>
   (prune rank os_remove m = Inr st \<longrightarrow> it st \<le> length (sorted_keys m)) \<and>
   prune_passes (Suc (length (sorted_keys m))) rank os_remove
       \<lparr>dlldeps = m, it = 0, removal_log = []\<rparr>
     = Some (prune rank os_remove m)"
proof (intro conjI impI)
  assume "compute_remove m \<noteq> [] \<and>
    remove_all os_remove i (range_order rank (compute_remove m)) (m, lg) = Inr (m', lg')"
  then show "length (sorted_keys m') < length (sorted_keys m)"
    using round_shrinks [of m os_remove i rank lg m' lg'] by (simp add: length_sorted_keys)
next
  assume "prune rank os_remove m = Inr st"
  then have "prune_loop rank os_remove \<lparr>dlldeps = m, it = 0, removal_log = []\<rparr> = Inr st"
    by (simp add: prune_def)
  from prune_loop_rounds [OF this] show "it st \<le> length (sorted_keys m)"
    by (simp add: length_sorted_keys)
next
  show "prune_passes (Suc (length (sorted_keys m))) rank os_remove
       \<lparr>dlldeps = m, it = 0, removal_log = []\<rparr>
     = Some (prune rank os_remove m)"
    unfolding prune_def by (rule prune_passes_enough) (simp add: length_sorted_keys)
qed

theorem pruner_rounds_bounded_witness:
  "compute_remove sample_deps \<noteq> [] \<and>
   remove_all (\<lambda>k. True) 0 (range_order (\<lambda>k. 0) (compute_remove sample_deps)) (sample_deps, [])
     = Inr (sample_after_round, sample_log_round) \<and>
   length (sorted_keys sample_after_round) < length (sorted_keys sample_deps) \<and>
   prune (\<lambda>k. 0) (\<lambda>k. True) sample_deps
     = Inr \<lparr>dlldeps = sample_retained, it = 2, removal_log = sample_log\<rparr> \<and>
   (2::nat) \<le> length (sorted_keys sample_deps)"
proof -
  have h: "compute_remove sample_deps \<noteq> [] \<and>
   remove_all (\<lambda>k. True) 0 (range_order (\<lambda>k. 0) (compute_remove sample_deps)) (sample_deps, [])
     = Inr (sample_after_round, sample_log_round)"
    by code_simp
  from pruner_rounds_bounded [of sample_deps "\<lambda>k. True" 0 "\<lambda>k. 0" "[]" sample_after_round
      sample_log_round "\<lparr>dlldeps = sample_retained, it = 2, removal_log = sample_log\<rparr>"]
    h sample_run
  show ?thesis by simp
qed

text \<open>
  The retained set itself does not depend on the iteration order, nor on which file
  removals are tried first.
\<close>

lemma retained_order_independent:
  assumes "prune rank os_remove m = Inr st" and "prune rank2 os_remove2 m = Inr st2"
  shows "key_set (dlldeps st2) = key_set (dlldeps st)"
  using prune_same_edges [OF refl _ assms] by simp

end
